theory Spec2Isabelle
  imports Complex_Main "HOL-Library.Char_ord" "HOL-Library.AList" "HOL-Library.Sublist"
    "HOL-Library.Multiset"
begin

section \<open>Text primitives\<close>

text \<open>
  Text is a list of characters, and the model is of ASCII text: \<open>str.lower()\<close> folds the
  letters A to Z and leaves every other character alone (on text outside ASCII Python
  folds further letters); the order on characters is the order of their code points.
\<close>

definition lower_char :: "char \<Rightarrow> char" where
  "lower_char c =
     (if CHR ''A'' \<le> c \<and> c \<le> CHR ''Z'' then char_of (of_char c + (32::nat)) else c)"

definition lower :: "string \<Rightarrow> string" where
  "lower s = map lower_char s"

text \<open>A Python dict: an association list in insertion order, one pair per key.\<close>

type_synonym ('k, 'v) dict = "('k \<times> 'v) list"

definition dict_get :: "('k, 'v) dict \<Rightarrow> 'k \<Rightarrow> 'v \<Rightarrow> 'v" where
  "dict_get d k dflt = (case map_of d k of None \<Rightarrow> dflt | Some v \<Rightarrow> v)"

definition dict_set :: "('k, 'v) dict \<Rightarrow> 'k \<Rightarrow> 'v \<Rightarrow> ('k, 'v) dict" where
  "dict_set d k v = AList.update k v d"

definition dict_keys :: "('k, 'v) dict \<Rightarrow> 'k list" where
  "dict_keys d = map fst d"

section \<open>MinimalRAGPipeline.generate_embeddings\<close>

text \<open>
  \<^verbatim>\<open>
  chars = {}
  for char in text.lower():
      chars[char] = chars.get(char, 0) + 1
  \<close>
\<close>

definition count_step :: "char \<Rightarrow> (char, nat) dict \<Rightarrow> (char, nat) dict" where
  "count_step c chars = dict_set chars c (dict_get chars c 0 + 1)"

definition count_chars :: "string \<Rightarrow> (char, nat) dict" where
  "count_chars s = fold count_step s []"

text \<open>
  \<^verbatim>\<open>
  embedding = [0.0] * 100
  for i, char in enumerate(sorted(chars.keys())[:100]):
      embedding[i] = chars[char] / len(text) if len(text) > 0 else 0.0
  return embedding
  \<close>
  The key read by \<open>chars[char]\<close> comes from \<open>chars.keys()\<close>, so the lookup cannot miss
  (lemma \<open>count_chars_key_present\<close>). The quotient of the two integers is taken in the reals.
\<close>

definition embed_step :: "(char, nat) dict \<Rightarrow> string \<Rightarrow> nat \<times> char \<Rightarrow> real list \<Rightarrow> real list" where
  "embed_step chars text ic embedding =
     embedding[fst ic := (if length text > 0
                          then real (dict_get chars (snd ic) 0) / real (length text)
                          else 0)]"

definition generate_embeddings :: "string \<Rightarrow> real list" where
  "generate_embeddings text =
     (let chars = count_chars (lower text);
          embedding = replicate 100 0
      in fold (embed_step chars text)
           (enumerate 0 (take 100 (sort (dict_keys chars)))) embedding)"

section \<open>MinimalRAGPipeline.search_similar_books\<close>

text \<open>
  The pipeline's \<open>embeddings_store\<close> is a dict from book id to an entry with the keys
  \<open>embedding\<close>, \<open>metadata\<close> and \<open>content\<close>; a search result is a dict with the keys
  \<open>book_id\<close>, \<open>similarity_score\<close>, \<open>metadata\<close> and \<open>content\<close>.
\<close>

record book_metadata =
  m_book_id :: int
  m_title :: string
  m_author :: "string option"
  m_genre :: "string option"

record index_entry =
  embedding :: "real list"
  metadata :: book_metadata
  content :: string

record search_result =
  r_book_id :: int
  similarity_score :: real
  r_metadata :: book_metadata
  r_content :: string

text \<open>
  \<open>str.split()\<close> without arguments: maximal runs of non-whitespace characters, the
  whitespace being that of ASCII.
\<close>

definition is_space :: "char \<Rightarrow> bool" where
  "is_space c = (c \<in> set [CHR 0x09, CHR 0x0A, CHR 0x0B, CHR 0x0C, CHR 0x0D,
                            CHR 0x1C, CHR 0x1D, CHR 0x1E, CHR 0x1F, CHR 0x20])"

fun split_from :: "string \<Rightarrow> string \<Rightarrow> string list" where
  "split_from cur [] = (if cur = [] then [] else [cur])"
| "split_from cur (c # cs) =
     (if is_space c then (if cur = [] then split_from [] cs else cur # split_from [] cs)
      else split_from (cur @ [c]) cs)"

definition str_split :: "string \<Rightarrow> string list" where
  "str_split s = split_from [] s"

text \<open>\<open>xs[:n]\<close>: a negative \<open>n\<close> counts from the end of the list.\<close>

definition slice_to :: "int \<Rightarrow> 'a list \<Rightarrow> 'a list" where
  "slice_to n xs = (if 0 \<le> n then take (nat n) xs else take (nat (int (length xs) + n)) xs)"

text \<open>
  \<^verbatim>\<open>
  score = 0.0
  for word in query_words:
      if word in content_lower:
          score += 1.0
  \<close>
\<close>

definition score_words :: "string list \<Rightarrow> string \<Rightarrow> real" where
  "score_words query_words content_lower =
     fold (\<lambda>word score. if sublist word content_lower then score + 1 else score) query_words 0"

text \<open>The body of the loop over \<open>embeddings_store.items()\<close>, appending to \<open>results\<close>.\<close>

definition match_entry ::
  "string list \<Rightarrow> int \<times> index_entry \<Rightarrow> search_result list \<Rightarrow> search_result list" where
  "match_entry query_words item results =
     (let content_lower = lower (content (snd item));
          score = score_words query_words content_lower
      in if score > 0
         then results @ [\<lparr>r_book_id = fst item,
                          similarity_score =
                            (if query_words \<noteq> [] then score / real (length query_words) else 0),
                          r_metadata = metadata (snd item),
                          r_content = content (snd item)\<rparr>]
         else results)"

text \<open>
  \<open>results.sort(key=..., reverse=True)\<close> is a stable sort into descending order of the key;
  \<open>sort_key\<close> on the negated key is the same permutation.
\<close>

definition search_similar_books ::
  "(int, index_entry) dict \<Rightarrow> string \<Rightarrow> int \<Rightarrow> search_result list" where
  "search_similar_books embeddings_store query n_results =
     (if embeddings_store = [] then []
      else
        let query_lower = lower query;
            query_words = str_split query_lower;
            results = fold (match_entry query_words) embeddings_store []
        in slice_to n_results (sort_key (\<lambda>x. - similarity_score x) results))"

section \<open>The persistent store of books\<close>

text \<open>
  A row of \<open>books\<close> as \<open>index_book\<close> and \<open>search_books\<close> load it, with the related
  author and genre eagerly loaded: \<open>author\<close> and \<open>genre\<close> hold the related record's name, or
  \<open>None\<close> when the relation is empty. The columns \<open>year_published\<close>, \<open>author_id\<close> and
  \<open>genre_id\<close> are read by neither function.
\<close>

record book =
  book_id :: int
  title :: string
  author :: "string option"
  genre :: "string option"
  summary :: "string option"

record review =
  review_book_id :: int
  review_text :: "string option"

datatype error =
    DBAPIError
  | MultipleResultsFound
  | DocumentNotFoundError
  | HTTPException nat

datatype statement =
    SelectBookById int
  | SelectReviewsByBookId int
  | SelectAllBooks
  | SelectBooksTitleIlike string int
  | SelectDocumentById int

text \<open>
  The session \<open>db\<close>: the rows of the two tables in the order in which a scan returns them,
  and the statements on which \<open>db.execute\<close> raises (a lost connection, a failed query).
\<close>

record database =
  books :: "book list"
  reviews :: "review list"
  failing :: "statement \<Rightarrow> bool"

definition scalar_one_or_none :: "'a list \<Rightarrow> error + 'a option" where
  "scalar_one_or_none rows =
     (case rows of
        [] \<Rightarrow> Inr None
      | [r] \<Rightarrow> Inr (Some r)
      | _ \<Rightarrow> Inl MultipleResultsFound)"

text \<open>\<open>select(Book).where(Book.id == book_id)\<close>\<close>

definition select_book_by_id :: "database \<Rightarrow> int \<Rightarrow> error + book list" where
  "select_book_by_id db bid =
     (if failing db (SelectBookById bid) then Inl DBAPIError
      else Inr (filter (\<lambda>b. book_id b = bid) (books db)))"

text \<open>\<open>select(Review).where(Review.book_id == book_id)\<close>\<close>

definition select_reviews :: "database \<Rightarrow> int \<Rightarrow> error + review list" where
  "select_reviews db bid =
     (if failing db (SelectReviewsByBookId bid) then Inl DBAPIError
      else Inr (filter (\<lambda>r. review_book_id r = bid) (reviews db)))"

text \<open>\<open>select(Book)\<close>\<close>

definition select_all_books :: "database \<Rightarrow> error + book list" where
  "select_all_books db =
     (if failing db SelectAllBooks then Inl DBAPIError else Inr (books db))"

text \<open>
  The store is PostgreSQL (\<open>DATABASE_URL\<close> is \<open>postgresql+asyncpg\<close>). Its \<open>LIKE\<close> reads
  \<open>%\<close> in the pattern as any run of characters, \<open>_\<close> as any one character and a backslash
  as the escape that makes the next pattern character literal; \<open>ILIKE\<close> is \<open>LIKE\<close> without
  regard to case. A pattern that ends in a lone backslash is rejected by the store; the
  pattern of \<open>search_books\<close> always ends in \<open>%\<close>, and that case is read as no match here.
\<close>

fun like_match :: "string \<Rightarrow> string \<Rightarrow> bool" where
  "like_match t [] = (t = [])"
| "like_match t (p # ps) =
     (if p = CHR 0x5C then
        (case ps of
           [] \<Rightarrow> False
         | q # qs \<Rightarrow> (case t of [] \<Rightarrow> False | c # cs \<Rightarrow> c = q \<and> like_match cs qs))
      else if p = CHR ''%'' then
        (like_match t ps \<or> (case t of [] \<Rightarrow> False | c # cs \<Rightarrow> like_match cs (p # ps)))
      else if p = CHR ''_'' then
        (case t of [] \<Rightarrow> False | c # cs \<Rightarrow> like_match cs ps)
      else
        (case t of [] \<Rightarrow> False | c # cs \<Rightarrow> c = p \<and> like_match cs ps))"

definition ilike :: "string \<Rightarrow> string \<Rightarrow> bool" where
  "ilike t pattern = like_match (lower t) (lower pattern)"

text \<open>
  \<open>select(Book).where(Book.title.ilike(f"%{query}%")).limit(limit)\<close>; PostgreSQL rejects a
  negative \<open>LIMIT\<close>.
\<close>

definition select_books_title_ilike :: "database \<Rightarrow> string \<Rightarrow> int \<Rightarrow> error + book list" where
  "select_books_title_ilike db query limit =
     (if failing db (SelectBooksTitleIlike query limit) then Inl DBAPIError
      else if limit < 0 then Inl DBAPIError
      else Inr (take (nat limit)
                  (filter (\<lambda>b. ilike (title b) (''%'' @ query @ ''%'')) (books db))))"

section \<open>MinimalRAGPipeline.index_book\<close>

fun join :: "string \<Rightarrow> string list \<Rightarrow> string" where
  "join sep [] = []"
| "join sep [x] = x"
| "join sep (x # y # ys) = x @ sep @ join sep (y # ys)"

text \<open>
  \<^verbatim>\<open>
  content_parts = [f"Title: {book.title}"]
  if book.author: content_parts.append(f"Author: {book.author.name}")
  if book.genre: content_parts.append(f"Genre: {book.genre.name}")
  if book.summary: content_parts.append(f"Summary: {book.summary}")
  if reviews:
      review_texts = [r.review_text for r in reviews if r.review_text]
      if review_texts:
          content_parts.append(f"Reviews: {' '.join(review_texts[:3])}")
  content = " ".join(content_parts)
  \<close>
  An empty string is falsy, as \<open>None\<close> is.
\<close>

definition review_texts_of :: "review list \<Rightarrow> string list" where
  "review_texts_of rs =
     concat (map (\<lambda>r. case review_text r of
                         None \<Rightarrow> []
                       | Some t \<Rightarrow> (if t \<noteq> [] then [t] else [])) rs)"

definition book_content :: "book \<Rightarrow> review list \<Rightarrow> string" where
  "book_content b rs =
     (let content_parts = [''Title: '' @ title b];
          content_parts = (case author b of
                             Some name \<Rightarrow> content_parts @ [''Author: '' @ name]
                           | None \<Rightarrow> content_parts);
          content_parts = (case genre b of
                             Some name \<Rightarrow> content_parts @ [''Genre: '' @ name]
                           | None \<Rightarrow> content_parts);
          content_parts = (case summary b of
                             Some s \<Rightarrow> (if s \<noteq> [] then content_parts @ [''Summary: '' @ s]
                                        else content_parts)
                           | None \<Rightarrow> content_parts);
          content_parts = (if rs \<noteq> [] \<and> review_texts_of rs \<noteq> []
                           then content_parts
                                  @ [''Reviews: '' @ join '' '' (take 3 (review_texts_of rs))]
                           else content_parts)
      in join '' '' content_parts)"

definition make_entry :: "int \<Rightarrow> book \<Rightarrow> review list \<Rightarrow> index_entry" where
  "make_entry bid b rs =
     \<lparr>embedding = generate_embeddings (book_content b rs),
      metadata = \<lparr>m_book_id = bid, m_title = title b, m_author = author b, m_genre = genre b\<rparr>,
      content = book_content b rs\<rparr>"

datatype log_record = LogError int error | LogWarning int error

text \<open>The process-wide pipeline instance and what the module's logger has written.\<close>

record rag_pipeline =
  embeddings_store :: "(int, index_entry) dict"
  logged :: "log_record list"

text \<open>The body of the \<open>try\<close> block: \<open>Inl\<close> is an exception raised inside it.\<close>

definition index_book_try ::
  "database \<Rightarrow> int \<Rightarrow> (int, index_entry) dict \<Rightarrow> error + (int, index_entry) dict" where
  "index_book_try db bid store =
     (case select_book_by_id db bid of
        Inl e \<Rightarrow> Inl e
      | Inr rows \<Rightarrow>
          (case scalar_one_or_none rows of
             Inl e \<Rightarrow> Inl e
           | Inr None \<Rightarrow> Inr store
           | Inr (Some b) \<Rightarrow>
               (case select_reviews db bid of
                  Inl e \<Rightarrow> Inl e
                | Inr rs \<Rightarrow> Inr (dict_set store bid (make_entry bid b rs)))))"

text \<open>
  \<open>index_book\<close> with its \<open>except Exception\<close> handler. The result is a sum so that an
  exception leaving the function would be a value \<open>Inl\<close>.
\<close>

definition index_book :: "database \<Rightarrow> int \<Rightarrow> rag_pipeline \<Rightarrow> error + rag_pipeline" where
  "index_book db bid rag =
     (case index_book_try db bid (embeddings_store rag) of
        Inr store \<Rightarrow> Inr (rag\<lparr>embeddings_store := store\<rparr>)
      | Inl e \<Rightarrow> Inr (rag\<lparr>logged := logged rag @ [LogError bid e]\<rparr>))"

section \<open>SearchService\<close>

record search_response =
  query :: string
  results :: "search_result list"

definition fallback_result :: "book \<Rightarrow> search_result" where
  "fallback_result b =
     \<lparr>r_book_id = book_id b,
      similarity_score = 1,
      r_metadata = \<lparr>m_book_id = book_id b, m_title = title b,
                    m_author = author b, m_genre = genre b\<rparr>,
      r_content = ''Title: '' @ title b\<rparr>"

definition search_books ::
  "database \<Rightarrow> rag_pipeline \<Rightarrow> string \<Rightarrow> int \<Rightarrow> error + search_response" where
  "search_books db rag q limit =
     (let rs = search_similar_books (embeddings_store rag) q limit
      in if rs = [] then
           (case select_books_title_ilike db q limit of
              Inl e \<Rightarrow> Inl e
            | Inr bs \<Rightarrow> Inr \<lparr>query = q, results = map fallback_result bs\<rparr>)
         else Inr \<lparr>query = q, results = rs\<rparr>)"

text \<open>
  \<open>reindex_all_books\<close>. The \<open>message\<close> of the returned dict is a rendering of
  \<open>indexed_count\<close> and is left out.
\<close>

record reindex_stats =
  total_books :: nat
  indexed_count :: nat
  total_in_store :: nat

definition reindex_step :: "database \<Rightarrow> book \<Rightarrow> nat \<times> rag_pipeline \<Rightarrow> nat \<times> rag_pipeline" where
  "reindex_step db b acc =
     (case index_book db (book_id b) (snd acc) of
        Inr rag \<Rightarrow> (fst acc + 1, rag)
      | Inl e \<Rightarrow> (fst acc, (snd acc)\<lparr>logged := logged (snd acc) @ [LogWarning (book_id b) e]\<rparr>))"

definition reindex_all_books ::
  "database \<Rightarrow> rag_pipeline \<Rightarrow> error + reindex_stats \<times> rag_pipeline" where
  "reindex_all_books db rag =
     (case select_all_books db of
        Inl e \<Rightarrow> Inl e
      | Inr bs \<Rightarrow>
          (let acc = fold (reindex_step db) bs (0, rag)
           in Inr (\<lparr>total_books = length bs,
                    indexed_count = fst acc,
                    total_in_store = length (embeddings_store (snd acc))\<rparr>,
                   snd acc)))"

section \<open>Ingestion jobs\<close>

text \<open>
  The tables \<open>documents\<close> and \<open>ingestion_jobs\<close>. Of a document only \<open>id\<close> and
  \<open>filename\<close> are read by the ingestion endpoints. A timestamp is a number of
  microseconds; \<open>status\<close> is the string column of the model. The primary key of a new job
  comes from the table's sequence, and \<open>scheduled\<close> holds the job ids of the
  \<open>process_ingestion_job\<close> tasks that \<open>asyncio.create_task\<close> has created and the event
  loop has not run yet. \<open>store_failing\<close> holds the statements on which \<open>db.execute\<close>
  raises.
\<close>

record document =
  doc_id :: int
  filename :: string

record ingestion_job =
  job_id :: int
  document_id :: int
  status :: string
  created_at :: int

record ingestion_store =
  documents :: "document list"
  ingestion_jobs :: "ingestion_job list"
  job_id_seq :: int
  scheduled :: "int list"
  store_failing :: "statement \<Rightarrow> bool"

definition minutes :: "int \<Rightarrow> int" where
  "minutes n = n * 60000000"

text \<open>
  The \<open>id\<close> columns are \<open>Integer\<close>, four bytes in PostgreSQL. The path parameter
  \<open>document_id\<close> is any Python \<open>int\<close>, and the driver refuses to bind one outside
  that range: \<open>db.execute\<close> raises before the store is asked.
\<close>

definition int4 :: "int \<Rightarrow> bool" where
  "int4 n = (- 2147483648 \<le> n \<and> n \<le> 2147483647)"

text \<open>
  \<open>DocumentService.get_document\<close> over \<open>BaseRepository.get\<close>:
  \<open>select(Document).where(Document.id == document_id)\<close>, then \<open>scalar_one_or_none\<close>.
\<close>

definition select_document_by_id :: "ingestion_store \<Rightarrow> int \<Rightarrow> error + document list" where
  "select_document_by_id st did =
     (if store_failing st (SelectDocumentById did) then Inl DBAPIError
      else if \<not> int4 did then Inl DBAPIError
      else Inr (filter (\<lambda>d. doc_id d = did) (documents st)))"

definition get_document :: "ingestion_store \<Rightarrow> int \<Rightarrow> error + document" where
  "get_document st did =
     (case select_document_by_id st did of
        Inl e \<Rightarrow> Inl e
      | Inr rows \<Rightarrow>
          (case scalar_one_or_none rows of
             Inl e \<Rightarrow> Inl e
           | Inr None \<Rightarrow> Inl DocumentNotFoundError
           | Inr (Some doc) \<Rightarrow> Inr doc))"

text \<open>
  \<open>trigger_ingestion\<close> at clock reading \<open>now\<close> (the server default of \<open>created_at\<close>).
  The response carries the constant message and \<open>job.id\<close>; the result here is \<open>job.id\<close>.
  An exception of \<open>get_document\<close> leaves the handler before anything is written. The
  insert, commit and refresh after it are taken to succeed.
\<close>

definition trigger_ingestion ::
  "int \<Rightarrow> int \<Rightarrow> ingestion_store \<Rightarrow> (error + int) \<times> ingestion_store" where
  "trigger_ingestion now did st =
     (case get_document st did of
        Inl e \<Rightarrow> (Inl e, st)
      | Inr doc \<Rightarrow>
          (let job = \<lparr>job_id = job_id_seq st, document_id = did,
                      status = ''running'', created_at = now\<rparr>
           in (Inr (job_id job),
               st\<lparr>ingestion_jobs := ingestion_jobs st @ [job],
                  job_id_seq := job_id_seq st + 1,
                  scheduled := scheduled st @ [job_id job]\<rparr>)))"

text \<open>Committing \<open>job.status = s\<close> updates the row with the job's primary key.\<close>

definition set_status :: "int \<Rightarrow> string \<Rightarrow> ingestion_job list \<Rightarrow> ingestion_job list" where
  "set_status jid s jobs = map (\<lambda>j. if job_id j = jid then j\<lparr>status := s\<rparr> else j) jobs"

text \<open>\<open>process_ingestion_job\<close>, once its two seconds of sleep are over\<close>

definition process_ingestion_job ::
  "int \<Rightarrow> ingestion_store \<Rightarrow> (error + unit) \<times> ingestion_store" where
  "process_ingestion_job jid st =
     (case scalar_one_or_none (filter (\<lambda>j. job_id j = jid) (ingestion_jobs st)) of
        Inl e \<Rightarrow> (Inl e, st)
      | Inr None \<Rightarrow> (Inr (), st)
      | Inr (Some job) \<Rightarrow>
          (Inr (), st\<lparr>ingestion_jobs := set_status (job_id job) ''completed'' (ingestion_jobs st)\<rparr>))"

text \<open>\<open>ingestion_status\<close>; its path parameter \<open>job_id\<close> is bound like \<open>document_id\<close>.\<close>

definition ingestion_status :: "int \<Rightarrow> ingestion_store \<Rightarrow> error + string \<times> int" where
  "ingestion_status jid st =
     (if \<not> int4 jid then Inl DBAPIError
      else
        (case scalar_one_or_none (filter (\<lambda>j. job_id j = jid) (ingestion_jobs st)) of
           Inl e \<Rightarrow> Inl e
         | Inr None \<Rightarrow> Inl (HTTPException 404)
         | Inr (Some job) \<Rightarrow> Inr (status job, created_at job)))"

record job_listing =
  l_id :: int
  l_document_id :: int
  l_filename :: string
  l_status :: string
  l_created_at :: int

text \<open>
  \<open>list_ingestion_jobs\<close>: the inner join of jobs and documents on the document id, ordered
  by \<open>created_at\<close> descending. SQL leaves the order of equal timestamps open; the stable
  sort is one such order.
\<close>

definition join_documents :: "document list \<Rightarrow> ingestion_job \<Rightarrow> (ingestion_job \<times> string) list" where
  "join_documents docs job =
     map (\<lambda>doc. (job, filename doc)) (filter (\<lambda>doc. document_id job = doc_id doc) docs)"

definition listing_of :: "ingestion_job \<times> string \<Rightarrow> job_listing" where
  "listing_of row =
     \<lparr>l_id = job_id (fst row),
      l_document_id = document_id (fst row),
      l_filename = snd row,
      l_status = status (fst row),
      l_created_at = created_at (fst row)\<rparr>"

definition list_ingestion_jobs :: "ingestion_store \<Rightarrow> job_listing list" where
  "list_ingestion_jobs st =
     (let jobs = sort_key (\<lambda>row. - created_at (fst row))
                   (concat (map (join_documents (documents st)) (ingestion_jobs st)))
      in map listing_of jobs)"

text \<open>\<open>complete_stuck_jobs\<close> at clock reading \<open>now\<close>; the result is \<open>completed_jobs\<close>.\<close>

definition complete_stuck_jobs :: "int \<Rightarrow> ingestion_store \<Rightarrow> nat \<times> ingestion_store" where
  "complete_stuck_jobs now st =
     (let cutoff_time = now - minutes 5;
          stuck_jobs = filter (\<lambda>j. status j = ''running'' \<and> created_at j < cutoff_time)
                         (ingestion_jobs st)
      in (length stuck_jobs,
          st\<lparr>ingestion_jobs :=
               fold (\<lambda>job jobs. set_status (job_id job) ''completed'' jobs)
                 stuck_jobs (ingestion_jobs st)\<rparr>))"

text \<open>
  One step of the tracker: a request to one of the endpoints, or the event loop running a
  scheduled completion task. The status lookup and the listing return a response and write
  nothing, so the store after them is the store before.
\<close>

datatype event =
    Trigger int int
  | RunTask int
  | Status int
  | ListJobs
  | Sweep int

fun step :: "event \<Rightarrow> ingestion_store \<Rightarrow> ingestion_store" where
  "step (Trigger now did) st = snd (trigger_ingestion now did st)"
| "step (RunTask jid) st =
     (if jid \<in> set (scheduled st)
      then snd (process_ingestion_job jid (st\<lparr>scheduled := remove1 jid (scheduled st)\<rparr>))
      else st)"
| "step (Status jid) st = st"
| "step ListJobs st = st"
| "step (Sweep now) st = snd (complete_stuck_jobs now st)"

definition run :: "event list \<Rightarrow> ingestion_store \<Rightarrow> ingestion_store" where
  "run evs st = fold step evs st"

section \<open>Reference readings and sample data\<close>

text \<open>
  The characters that \<open>LIKE\<close> does not read literally, and the plain reading of the
  fallback search: the titles that contain the query, case ignored, cut at \<open>limit\<close>.
\<close>

definition like_meta :: "char \<Rightarrow> bool" where
  "like_meta c = (c = CHR ''%'' \<or> c = CHR ''_'' \<or> c = CHR 0x5C)"

definition title_contains :: "string \<Rightarrow> book \<Rightarrow> bool" where
  "title_contains q b = sublist (lower q) (lower (title b))"

definition substring_fallback :: "database \<Rightarrow> string \<Rightarrow> int \<Rightarrow> search_result list" where
  "substring_fallback db q limit =
     map fallback_result (take (nat limit) (filter (title_contains q) (books db)))"

text \<open>The listing row of a job: its own columns and the filename of its document.\<close>

definition job_row :: "document list \<Rightarrow> ingestion_job \<Rightarrow> job_listing" where
  "job_row docs j =
     \<lparr>l_id = job_id j,
      l_document_id = document_id j,
      l_filename = (case find (\<lambda>d. doc_id d = document_id j) docs of
                      Some d \<Rightarrow> filename d
                    | None \<Rightarrow> []),
      l_status = status j,
      l_created_at = created_at j\<rparr>"

text \<open>
  What a step of the tracker keeps of the job table: no row is lost, a row with status
  \<open>c\<close> is left as it is, and a status that appears is one of \<open>S\<close>.
\<close>

definition keeps_status ::
  "string \<Rightarrow> string set \<Rightarrow> ingestion_job list \<Rightarrow> ingestion_job list \<Rightarrow> bool" where
  "keeps_status c S js js' \<longleftrightarrow>
     length js \<le> length js'
     \<and> (\<forall>i < length js. status (js ! i) = c \<longrightarrow> js' ! i = js ! i)
     \<and> status ` set js' \<subseteq> status ` set js \<union> S"

definition ex_dune :: book where
  "ex_dune = \<lparr>book_id = 1, title = ''Dune'', author = Some ''Herbert'', genre = None,
              summary = Some []\<rparr>"

definition ex_emma :: book where
  "ex_emma = \<lparr>book_id = 2, title = ''Emma'', author = None, genre = Some ''Novel'',
              summary = Some ''A match''\<rparr>"

definition ex_db :: database where
  "ex_db = \<lparr>books = [ex_dune, ex_emma],
            reviews = [\<lparr>review_book_id = 1, review_text = Some ''sand''\<rparr>],
            failing = (\<lambda>s. s = SelectReviewsByBookId 2)\<rparr>"

definition ex_dune_retitled :: book where
  "ex_dune_retitled = ex_dune\<lparr>title := ''Dune Messiah''\<rparr>"

definition ex_db2 :: database where
  "ex_db2 = ex_db\<lparr>books := [ex_dune_retitled, ex_emma]\<rparr>"

definition ex_rag :: rag_pipeline where
  "ex_rag = \<lparr>embeddings_store = [], logged = []\<rparr>"

definition ex_index :: "(int, index_entry) dict" where
  "ex_index = [(1, make_entry 1 ex_dune []), (2, make_entry 2 ex_emma [])]"

definition ex_rag_indexed :: rag_pipeline where
  "ex_rag_indexed = \<lparr>embeddings_store = ex_index, logged = []\<rparr>"

definition ex_store :: ingestion_store where
  "ex_store =
     \<lparr>documents = [\<lparr>doc_id = 1, filename = ''a.pdf''\<rparr>, \<lparr>doc_id = 2, filename = ''b.pdf''\<rparr>],
      ingestion_jobs =
        [\<lparr>job_id = 1, document_id = 2, status = ''running'', created_at = 0\<rparr>,
         \<lparr>job_id = 2, document_id = 1, status = ''running'', created_at = minutes 9\<rparr>,
         \<lparr>job_id = 3, document_id = 1, status = ''completed'', created_at = minutes 3\<rparr>],
      job_id_seq = 4,
      scheduled = [1, 2],
      store_failing = (\<lambda>s. False)\<rparr>"

section \<open>Properties of the fingerprint\<close>

lemma dict_get_count_fold:
  "dict_get (fold count_step s acc) c 0 = dict_get acc c 0 + count_list s c"
proof (induction s arbitrary: acc)
  case Nil
  show ?case by simp
next
  case (Cons x xs)
  have "dict_get (count_step x acc) c 0 = dict_get acc c 0 + (if x = c then 1 else 0)"
    by (simp add: count_step_def dict_set_def dict_get_def update_conv')
  with Cons show ?case by simp
qed

lemma dict_get_count_chars: "dict_get (count_chars s) c 0 = count_list s c"
  using dict_get_count_fold [of s "[]" c] by (simp add: count_chars_def dict_get_def)

lemma keys_count_fold:
  "set (dict_keys (fold count_step s acc)) = set (dict_keys acc) \<union> set s"
proof (induction s arbitrary: acc)
  case Nil
  show ?case by simp
next
  case (Cons x xs)
  have "set (dict_keys (count_step x acc)) = insert x (set (dict_keys acc))"
    by (simp add: count_step_def dict_set_def dict_keys_def dom_update)
  with Cons show ?case by simp
qed

lemma count_chars_key_present:
  "c \<in> set (dict_keys (count_chars s)) \<Longrightarrow> map_of (count_chars s) c \<noteq> None"
  by (simp add: dict_keys_def map_of_eq_None_iff)

lemma length_fold_embed_step:
  "length (fold (embed_step chars text) ics emb) = length emb"
  by (induction ics arbitrary: emb) (simp_all add: embed_step_def)

lemma embed_step_range:
  assumes "\<forall>x \<in> set emb. 0 \<le> x \<and> x \<le> 1"
  shows "\<forall>x \<in> set (embed_step (count_chars (lower s)) s ic emb). 0 \<le> x \<and> x \<le> 1"
proof
  fix x
  assume x: "x \<in> set (embed_step (count_chars (lower s)) s ic emb)"
  define v where "v = (if length s > 0
      then real (dict_get (count_chars (lower s)) (snd ic) 0) / real (length s) else 0)"
  have "count_list (lower s) (snd ic) \<le> length (lower s)"
    by (rule count_le_length)
  then have "count_list (lower s) (snd ic) \<le> length s"
    by (simp add: lower_def)
  then have v: "0 \<le> v \<and> v \<le> 1"
    by (simp add: v_def dict_get_count_chars)
  have "embed_step (count_chars (lower s)) s ic emb = emb[fst ic := v]"
    by (simp add: embed_step_def v_def)
  with x have "x \<in> set (emb[fst ic := v])"
    by simp
  then have "x = v \<or> x \<in> set emb"
    using set_update_subset_insert [of emb "fst ic" v] by blast
  with v assms show "0 \<le> x \<and> x \<le> 1"
    by blast
qed

lemma range_fold_embed_step:
  "\<forall>x \<in> set emb. 0 \<le> x \<and> x \<le> 1 \<Longrightarrow>
   \<forall>x \<in> set (fold (embed_step (count_chars (lower s)) s) ics emb). 0 \<le> x \<and> x \<le> 1"
proof (induction ics arbitrary: emb)
  case Nil
  then show ?case by simp
next
  case (Cons ic ics)
  from Cons.prems have "\<forall>x \<in> set (embed_step (count_chars (lower s)) s ic emb). 0 \<le> x \<and> x \<le> 1"
    by (rule embed_step_range)
  then have "\<forall>x \<in> set (fold (embed_step (count_chars (lower s)) s) ics
      (embed_step (count_chars (lower s)) s ic emb)). 0 \<le> x \<and> x \<le> 1"
    by (rule Cons.IH)
  then show ?case by simp
qed

text \<open>
  C2. For every text the fingerprint has exactly 100 entries, each of them in the closed
  interval from 0 to 1, and the fingerprint of the empty text is all zeros.
\<close>

theorem generate_embeddings_shape:
  "length (generate_embeddings text) = 100
   \<and> (\<forall>x \<in> set (generate_embeddings text). 0 \<le> x \<and> x \<le> 1)
   \<and> generate_embeddings [] = replicate 100 0"
proof -
  have len: "length (generate_embeddings text) = 100"
    by (simp add: generate_embeddings_def Let_def length_fold_embed_step)
  have rng: "\<forall>x \<in> set (generate_embeddings text). 0 \<le> x \<and> x \<le> 1"
    unfolding generate_embeddings_def Let_def
    by (rule range_fold_embed_step) simp
  have emp: "generate_embeddings [] = replicate 100 0"
    by (simp add: generate_embeddings_def count_chars_def lower_def dict_keys_def)
  from len rng emp show ?thesis by blast
qed

theorem generate_embeddings_shape_witness:
  "1 / 2 \<in> set (generate_embeddings ''Ab'')
   \<and> length (generate_embeddings ''Ab'') = 100
   \<and> (0::real) \<le> 1 / 2 \<and> (1::real) / 2 \<le> 1"
proof -
  have "generate_embeddings ''Ab'' ! 0 = 1 / 2"
    by code_simp
  moreover have "length (generate_embeddings ''Ab'') = 100"
    using generate_embeddings_shape [of "''Ab''"] by simp
  ultimately have "1 / 2 \<in> set (generate_embeddings ''Ab'')"
    by (metis nth_mem zero_less_numeral)
  with generate_embeddings_shape [of "''Ab''"] show ?thesis
    by simp
qed

section \<open>Properties of the query matcher\<close>

lemma score_words_Nil: "score_words [] c = 0"
  by (simp add: score_words_def)

lemma match_entry_positive:
  assumes "\<forall>r \<in> set rs. 0 < similarity_score r"
  shows "\<forall>r \<in> set (match_entry ws item rs). 0 < similarity_score r"
proof (cases "0 < score_words ws (lower (content (snd item)))")
  case True
  then have "ws \<noteq> []"
    using score_words_Nil by fastforce
  then have "0 < real (length ws)"
    by simp
  with True have "0 < score_words ws (lower (content (snd item))) / real (length ws)"
    by simp
  with assms True \<open>ws \<noteq> []\<close> show ?thesis
    by (simp add: match_entry_def Let_def)
next
  case False
  with assms show ?thesis
    by (simp add: match_entry_def Let_def)
qed

lemma fold_match_entry_positive:
  "\<forall>r \<in> set rs. 0 < similarity_score r \<Longrightarrow>
   \<forall>r \<in> set (fold (match_entry ws) items rs). 0 < similarity_score r"
proof (induction items arbitrary: rs)
  case Nil
  then show ?case by simp
next
  case (Cons item items)
  from Cons.prems have "\<forall>r \<in> set (match_entry ws item rs). 0 < similarity_score r"
    by (rule match_entry_positive)
  then have "\<forall>r \<in> set (fold (match_entry ws) items (match_entry ws item rs)).
      0 < similarity_score r"
    by (rule Cons.IH)
  then show ?case by simp
qed

lemma fold_match_entry_no_words: "fold (match_entry []) items rs = rs"
  by (induction items arbitrary: rs) (simp_all add: match_entry_def score_words_def)

lemma set_slice_to: "set (slice_to n xs) \<subseteq> set xs"
  by (auto simp: slice_to_def dest: in_set_takeD)

lemma length_slice_to: "0 \<le> n \<Longrightarrow> int (length (slice_to n xs)) \<le> n"
  by (simp add: slice_to_def)

lemma sorted_wrt_slice_to: "sorted_wrt P xs \<Longrightarrow> sorted_wrt P (slice_to n xs)"
  by (simp add: slice_to_def)

lemma sort_key_descending:
  "sorted_wrt (\<lambda>a b. similarity_score b \<le> similarity_score a)
     (sort_key (\<lambda>x. - similarity_score x) rs)"
proof -
  have "sorted (map (\<lambda>x. - similarity_score x) (sort_key (\<lambda>x. - similarity_score x) rs))"
    by (rule sorted_sort_key)
  then show ?thesis
    by (simp add: sorted_map)
qed

lemma str_split_lower_Nil: "str_split (lower []) = []"
  by (simp add: str_split_def lower_def)

lemma search_similar_books_empty_query: "search_similar_books store [] n = []"
  using str_split_lower_Nil
  by (simp add: search_similar_books_def Let_def fold_match_entry_no_words slice_to_def)

text \<open>
  C1, as amended. For every store, query and \<open>n_results\<close> the matcher returns only results
  of score above 0, in non-increasing order of score; when \<open>n_results\<close> is not negative it
  returns at most that many. The empty query has no terms, every text scores 0 against it
  and the result is empty.
\<close>

theorem search_similar_books_ranked:
  "(\<forall>r \<in> set (search_similar_books store q n). 0 < similarity_score r)
   \<and> sorted_wrt (\<lambda>a b. similarity_score b \<le> similarity_score a)
         (search_similar_books store q n)
   \<and> (0 \<le> n \<longrightarrow> int (length (search_similar_books store q n)) \<le> n)
   \<and> str_split (lower []) = []
   \<and> (\<forall>c. score_words (str_split (lower [])) c = 0)
   \<and> search_similar_books store [] n = []"
proof -
  let ?rs = "fold (match_entry (str_split (lower q))) store []"
  have unfold: "search_similar_books store q n =
      (if store = [] then [] else slice_to n (sort_key (\<lambda>x. - similarity_score x) ?rs))"
    by (simp add: search_similar_books_def Let_def)
  have "\<forall>r \<in> set ?rs. 0 < similarity_score r"
    by (rule fold_match_entry_positive) simp
  then have "\<forall>r \<in> set (slice_to n (sort_key (\<lambda>x. - similarity_score x) ?rs)).
      0 < similarity_score r"
    using set_slice_to [of n "sort_key (\<lambda>x. - similarity_score x) ?rs"] by auto
  then have pos: "\<forall>r \<in> set (search_similar_books store q n). 0 < similarity_score r"
    by (simp add: unfold)
  have srt: "sorted_wrt (\<lambda>a b. similarity_score b \<le> similarity_score a)
      (search_similar_books store q n)"
    by (simp add: unfold sorted_wrt_slice_to sort_key_descending)
  have len: "0 \<le> n \<longrightarrow> int (length (search_similar_books store q n)) \<le> n"
    by (simp add: unfold length_slice_to)
  have zero: "\<forall>c. score_words (str_split (lower [])) c = 0"
    by (simp add: str_split_lower_Nil score_words_Nil)
  from pos srt len str_split_lower_Nil zero search_similar_books_empty_query show ?thesis
    by blast
qed

theorem search_similar_books_ranked_witness:
  "length (search_similar_books ex_index ''DUNE emma'' 1) = 1
   \<and> 0 < similarity_score (hd (search_similar_books ex_index ''DUNE emma'' 1))
   \<and> (0::int) \<le> 1
   \<and> int (length (search_similar_books ex_index ''DUNE emma'' 1)) \<le> 1"
proof -
  have len: "length (search_similar_books ex_index ''DUNE emma'' 1) = 1"
    by code_simp
  then have "hd (search_similar_books ex_index ''DUNE emma'' 1)
      \<in> set (search_similar_books ex_index ''DUNE emma'' 1)"
    by (cases "search_similar_books ex_index ''DUNE emma'' 1") simp_all
  with len search_similar_books_ranked [of ex_index "''DUNE emma''" 1] show ?thesis
    by simp
qed

text \<open>
  With \<open>n_results = -1\<close> the slice drops the last of two matches and returns one result,
  which is more than \<open>n_results\<close>.
\<close>

theorem search_similar_books_negative_counterexample:
  "length (search_similar_books ex_index ''e'' (- 1)) = 1
   \<and> \<not> int (length (search_similar_books ex_index ''e'' (- 1))) \<le> - 1"
proof -
  have "length (search_similar_books ex_index ''e'' (- 1)) = 1"
    by code_simp
  then show ?thesis
    by simp
qed

section \<open>Properties of the search orchestrator\<close>

lemma of_char_lower_char:
  "(of_char (lower_char c) :: nat) =
     (if 65 \<le> (of_char c :: nat) \<and> (of_char c :: nat) \<le> 90 then of_char c + 32 else of_char c)"
proof -
  have "(of_char c :: nat) < 256"
    by simp
  then show ?thesis
    by (simp add: lower_char_def less_eq_char_def)
qed

lemma like_meta_of_char:
  "like_meta c \<longleftrightarrow>
     (of_char c :: nat) = 37 \<or> (of_char c :: nat) = 95 \<or> (of_char c :: nat) = 92"
proof -
  have "(of_char (CHR ''%'') :: nat) = 37" "(of_char (CHR ''_'') :: nat) = 95"
    "(of_char (CHR 0x5C) :: nat) = 92"
    by simp_all
  then show ?thesis
    unfolding like_meta_def by (metis of_char_eq_iff)
qed

lemma like_meta_lower_char: "like_meta (lower_char c) = like_meta c"
  by (simp add: like_meta_of_char of_char_lower_char)

lemma like_match_literal:
  "\<forall>c \<in> set q. \<not> like_meta c \<Longrightarrow>
   like_match t (q @ r) \<longleftrightarrow> (\<exists>t'. t = q @ t' \<and> like_match t' r)"
proof (induction q arbitrary: t)
  case Nil
  show ?case by simp
next
  case (Cons p ps)
  then have p: "p \<noteq> CHR 0x5C" "p \<noteq> CHR ''%''" "p \<noteq> CHR ''_''"
    by (auto simp: like_meta_def)
  from Cons have IH: "\<And>u. like_match u (ps @ r) \<longleftrightarrow> (\<exists>t'. u = ps @ t' \<and> like_match t' r)"
    by simp
  show ?case
  proof (cases t)
    case Nil
    with p show ?thesis by simp
  next
    case (Cons c cs)
    with p IH [of cs] show ?thesis by auto
  qed
qed

lemma like_match_percent:
  "like_match t (CHR ''%'' # p) \<longleftrightarrow> (\<exists>a b. t = a @ b \<and> like_match b p)"
proof (induction t)
  case Nil
  show ?case by simp
next
  case (Cons c cs)
  have "like_match (c # cs) (CHR ''%'' # p) \<longleftrightarrow>
      like_match (c # cs) p \<or> like_match cs (CHR ''%'' # p)"
    by simp
  also have "\<dots> \<longleftrightarrow> like_match (c # cs) p \<or> (\<exists>a b. cs = a @ b \<and> like_match b p)"
    by (simp only: Cons.IH)
  also have "\<dots> \<longleftrightarrow> (\<exists>a b. c # cs = a @ b \<and> like_match b p)"
    by (auto simp: Cons_eq_append_conv)
  finally show ?case .
qed

lemma like_match_any: "like_match t [CHR ''%'']"
proof -
  have "\<exists>a b. t = a @ b \<and> like_match b []"
    by simp
  then show ?thesis
    by (simp only: like_match_percent)
qed

lemma like_match_contains:
  assumes "\<forall>c \<in> set q. \<not> like_meta c"
  shows "like_match t (CHR ''%'' # q @ [CHR ''%'']) \<longleftrightarrow> sublist q t"
proof -
  have "like_match t (CHR ''%'' # q @ [CHR ''%'']) \<longleftrightarrow>
      (\<exists>a b. t = a @ b \<and> like_match b (q @ [CHR ''%'']))"
    by (rule like_match_percent)
  also have "\<dots> \<longleftrightarrow> (\<exists>a b. t = a @ b \<and> (\<exists>t'. b = q @ t'))"
    using like_match_literal [OF assms, of _ "[CHR ''%'']"] like_match_any
    by (simp del: like_match.simps)
  also have "\<dots> \<longleftrightarrow> sublist q t"
    by (auto simp: sublist_def)
  finally show ?thesis .
qed

lemma ilike_contains:
  assumes "\<forall>c \<in> set q. \<not> like_meta c"
  shows "ilike t (''%'' @ q @ ''%'') \<longleftrightarrow> sublist (lower q) (lower t)"
proof -
  have "\<forall>c \<in> set (lower q). \<not> like_meta c"
    using assms by (auto simp: lower_def like_meta_lower_char)
  moreover have "lower (''%'' @ q @ ''%'') = CHR ''%'' # lower q @ [CHR ''%'']"
    by (simp add: lower_def lower_char_def)
  ultimately show ?thesis
    by (simp add: ilike_def like_match_contains del: like_match.simps)
qed

lemma ilike_empty_query: "ilike t (''%'' @ [] @ ''%'')"
  using ilike_contains [of "[]" t] by (simp add: lower_def)

lemma select_books_title_ilike_plain:
  assumes "\<forall>c \<in> set q. \<not> like_meta c" and "0 \<le> limit"
    and "\<not> failing db (SelectBooksTitleIlike q limit)"
  shows "select_books_title_ilike db q limit =
    Inr (take (nat limit) (filter (title_contains q) (books db)))"
proof -
  have "(\<lambda>b. ilike (title b) (''%'' @ q @ ''%'')) = title_contains q"
    using ilike_contains [OF assms(1)] by (simp add: title_contains_def fun_eq_iff)
  with assms(2,3) show ?thesis
    by (simp add: select_books_title_ilike_def)
qed

lemma fallback_result_score: "\<forall>r \<in> set (map fallback_result bs). similarity_score r = 1"
  by (simp add: fallback_result_def)

text \<open>
  What \<open>search_books\<close> returns on each path. A matcher result that is not empty is
  returned unchanged under the original query and the store is not asked. When it is
  empty, \<open>limit\<close> is not negative and the store answers, the result holds, under the
  original query, the first \<open>limit\<close> books that the pattern matches, each with score 1;
  for a query without a character that \<open>LIKE\<close> reads specially these are the books whose
  title contains the query, case ignored.
\<close>

lemma search_books_matcher_path:
  "search_similar_books (embeddings_store rag) q limit \<noteq> [] \<Longrightarrow>
   search_books db rag q limit =
     Inr \<lparr>query = q, results = search_similar_books (embeddings_store rag) q limit\<rparr>"
  by (simp add: search_books_def Let_def)

lemma search_books_fallback_path:
  assumes "search_similar_books (embeddings_store rag) q limit = []" and "0 \<le> limit"
    and "\<not> failing db (SelectBooksTitleIlike q limit)"
  shows "\<exists>bs. search_books db rag q limit = Inr \<lparr>query = q, results = map fallback_result bs\<rparr>
      \<and> bs = take (nat limit) (filter (\<lambda>b. ilike (title b) (''%'' @ q @ ''%'')) (books db))
      \<and> int (length (map fallback_result bs)) \<le> limit
      \<and> (\<forall>r \<in> set (map fallback_result bs). similarity_score r = 1)"
proof -
  let ?bs = "take (nat limit) (filter (\<lambda>b. ilike (title b) (''%'' @ q @ ''%'')) (books db))"
  from assms(2,3) have "select_books_title_ilike db q limit = Inr ?bs"
    by (simp add: select_books_title_ilike_def)
  with assms(1) have 1: "search_books db rag q limit =
      Inr \<lparr>query = q, results = map fallback_result ?bs\<rparr>"
    by (simp add: search_books_def Let_def)
  from assms(2) have "int (length ?bs) \<le> limit"
    by simp
  then have 2: "int (length (map fallback_result ?bs)) \<le> limit"
    by (simp only: length_map)
  from 1 2 fallback_result_score show ?thesis
    by blast
qed

lemma search_books_fallback_rejected:
  assumes "search_similar_books (embeddings_store rag) q limit = []"
    and "limit < 0 \<or> failing db (SelectBooksTitleIlike q limit)"
  shows "search_books db rag q limit = Inl DBAPIError"
proof -
  from assms(2) have "select_books_title_ilike db q limit = Inl DBAPIError"
    by (auto simp: select_books_title_ilike_def)
  with assms(1) show ?thesis
    by (simp add: search_books_def Let_def)
qed

lemma search_books_plain_query:
  assumes "search_similar_books (embeddings_store rag) q limit = []" and "0 \<le> limit"
    and "\<forall>c \<in> set q. \<not> like_meta c" and "\<not> failing db (SelectBooksTitleIlike q limit)"
  shows "search_books db rag q limit = Inr \<lparr>query = q, results = substring_fallback db q limit\<rparr>"
proof -
  from assms(2,3,4) have "select_books_title_ilike db q limit =
      Inr (take (nat limit) (filter (title_contains q) (books db)))"
    by (simp add: select_books_title_ilike_plain)
  with assms(1) show ?thesis
    by (simp add: search_books_def Let_def substring_fallback_def)
qed

text \<open>
  C3. The query \<open>_\<close> is contained in neither title of the sample store, the matcher finds
  it in no indexed text (it tests each term literally), and the plain substring fallback
  of the claim selects no book. \<open>search_books\<close> takes the fallback path and returns both
  books with score 1, with an empty index and with both books indexed: the pattern is
  built from the unescaped query and the store reads its underscore as any one character.
\<close>

theorem search_books_wildcard_divergence:
  "search_similar_books (embeddings_store ex_rag) ''_'' 5 = []
   \<and> search_similar_books (embeddings_store ex_rag_indexed) ''_'' 5 = []
   \<and> \<not> title_contains ''_'' ex_dune
   \<and> \<not> title_contains ''_'' ex_emma
   \<and> substring_fallback ex_db ''_'' 5 = []
   \<and> search_books ex_db ex_rag ''_'' 5 =
       Inr \<lparr>query = ''_'', results = [fallback_result ex_dune, fallback_result ex_emma]\<rparr>
   \<and> search_books ex_db ex_rag_indexed ''_'' 5 =
       Inr \<lparr>query = ''_'', results = [fallback_result ex_dune, fallback_result ex_emma]\<rparr>"
  by code_simp

text \<open>
  C10, as amended. For the empty query, a store that holds at least one book and answers,
  and a \<open>limit\<close> of at least 1, \<open>search_books\<close> returns the first \<open>limit\<close> books of the
  store, each with score 1, whatever the index holds; the result is not empty.
\<close>

theorem search_books_empty_query:
  "books db \<noteq> [] \<Longrightarrow> 1 \<le> limit \<Longrightarrow> \<not> failing db (SelectBooksTitleIlike [] limit) \<Longrightarrow>
   search_books db rag [] limit =
     Inr \<lparr>query = [], results = map fallback_result (take (nat limit) (books db))\<rparr>
   \<and> map fallback_result (take (nat limit) (books db)) \<noteq> []
   \<and> int (length (map fallback_result (take (nat limit) (books db)))) \<le> limit
   \<and> (\<forall>r \<in> set (map fallback_result (take (nat limit) (books db))). similarity_score r = 1)"
proof -
  assume bs: "books db \<noteq> []" and lim: "1 \<le> limit"
    and ok: "\<not> failing db (SelectBooksTitleIlike [] limit)"
  have "filter (\<lambda>b. ilike (title b) (''%'' @ [] @ ''%'')) (books db) = books db"
    using ilike_empty_query by simp
  with lim ok have "select_books_title_ilike db [] limit = Inr (take (nat limit) (books db))"
    by (simp add: select_books_title_ilike_def)
  then have 1: "search_books db rag [] limit =
      Inr \<lparr>query = [], results = map fallback_result (take (nat limit) (books db))\<rparr>"
    by (simp add: search_books_def Let_def search_similar_books_empty_query)
  from bs lim have 2: "map fallback_result (take (nat limit) (books db)) \<noteq> []"
    by simp
  from lim have 3: "int (length (map fallback_result (take (nat limit) (books db)))) \<le> limit"
    by simp
  from 1 2 3 fallback_result_score show ?thesis
    by blast
qed

theorem search_books_empty_query_witness:
  "books ex_db \<noteq> [] \<and> (1::int) \<le> 1 \<and> \<not> failing ex_db (SelectBooksTitleIlike [] 1)
   \<and> search_books ex_db ex_rag_indexed [] 1 = Inr \<lparr>query = [], results = [fallback_result ex_dune]\<rparr>"
proof -
  have 1: "books ex_db \<noteq> []" and 2: "\<not> failing ex_db (SelectBooksTitleIlike [] 1)"
    and 3: "take (nat 1) (books ex_db) = [ex_dune]"
    by (simp_all add: ex_db_def)
  from search_books_empty_query [OF 1 _ 2, of ex_rag_indexed] 1 2 3 show ?thesis
    by simp
qed

text \<open>With \<open>limit = 0\<close> the result for the empty query is empty although the store holds books.\<close>

theorem search_books_empty_query_counterexample:
  "books ex_db \<noteq> [] \<and> search_books ex_db ex_rag [] 0 = Inr \<lparr>query = [], results = []\<rparr>"
  by code_simp

section \<open>Properties of the ingestion job tracker\<close>

lemma filter_key_none: "k \<notin> f ` set xs \<Longrightarrow> filter (\<lambda>y. f y = k) xs = []"
  by (induction xs) auto

lemma filter_key_unique:
  "distinct (map f xs) \<Longrightarrow> x \<in> set xs \<Longrightarrow> filter (\<lambda>y. f y = f x) xs = [x]"
proof (induction xs)
  case Nil
  then show ?case by simp
next
  case (Cons a xs)
  show ?case
  proof (cases "a = x")
    case True
    with Cons.prems have "f x \<notin> f ` set xs"
      by simp
    then have "filter (\<lambda>y. f y = f x) xs = []"
      by (rule filter_key_none)
    with True show ?thesis by simp
  next
    case False
    with Cons.prems have "x \<in> set xs" and "f a \<noteq> f x"
      by auto
    with Cons show ?thesis by simp
  qed
qed








lemma fold_set_status:
  "fold (\<lambda>job jobs. set_status (job_id job) s jobs) xs js =
   map (\<lambda>j. if job_id j \<in> job_id ` set xs then j\<lparr>status := s\<rparr> else j) js"
proof (induction xs arbitrary: js)
  case Nil
  show ?case by simp
next
  case (Cons x xs)
  have "fold (\<lambda>job jobs. set_status (job_id job) s jobs) (x # xs) js =
      map (\<lambda>j. if job_id j \<in> job_id ` set xs then j\<lparr>status := s\<rparr> else j)
        (set_status (job_id x) s js)"
    by (simp add: Cons.IH)
  also have "\<dots> = map (\<lambda>j. if job_id j \<in> job_id ` set (x # xs) then j\<lparr>status := s\<rparr> else j) js"
    by (simp add: set_status_def)
  finally show ?case .
qed

lemma key_in_filter_image:
  assumes "distinct (map f xs)" and "x \<in> set xs"
  shows "f x \<in> f ` set (filter P xs) \<longleftrightarrow> P x"
proof
  assume "f x \<in> f ` set (filter P xs)"
  then obtain y where y: "y \<in> set xs" "P y" "f y = f x"
    by auto
  with assms have "y = x"
    by (meson distinct_map inj_onD)
  with y show "P x" by simp
next
  assume "P x"
  with assms(2) show "f x \<in> f ` set (filter P xs)"
    by auto
qed

text \<open>
  C5. With job ids the primary key of the table, the sweep sets to \<open>completed\<close> exactly
  the rows that are \<open>running\<close> and were created strictly before \<open>now\<close> minus five minutes,
  leaves every other row and the rest of the store as they are, and returns the number of
  rows it set. A creation time ten minutes back is before the cutoff, one a minute back is
  not.
\<close>

theorem complete_stuck_jobs_sweep:
  "distinct (map job_id (ingestion_jobs st)) \<Longrightarrow>
   complete_stuck_jobs now st =
     (length (filter (\<lambda>j. status j = ''running'' \<and> created_at j < now - minutes 5)
                (ingestion_jobs st)),
      st\<lparr>ingestion_jobs :=
           map (\<lambda>j. if status j = ''running'' \<and> created_at j < now - minutes 5
                     then j\<lparr>status := ''completed''\<rparr> else j)
             (ingestion_jobs st)\<rparr>)
   \<and> now - minutes 10 < now - minutes 5
   \<and> \<not> now - minutes 1 < now - minutes 5"
proof -
  assume d: "distinct (map job_id (ingestion_jobs st))"
  let ?P = "\<lambda>j. status j = ''running'' \<and> created_at j < now - minutes 5"
  have "map (\<lambda>j. if job_id j \<in> job_id ` set (filter ?P (ingestion_jobs st))
                  then j\<lparr>status := ''completed''\<rparr> else j) (ingestion_jobs st)
      = map (\<lambda>j. if ?P j then j\<lparr>status := ''completed''\<rparr> else j) (ingestion_jobs st)"
  proof (rule map_cong [OF refl])
    fix j
    assume "j \<in> set (ingestion_jobs st)"
    with d have "job_id j \<in> job_id ` set (filter ?P (ingestion_jobs st)) \<longleftrightarrow> ?P j"
      by (rule key_in_filter_image)
    then show "(if job_id j \<in> job_id ` set (filter ?P (ingestion_jobs st))
                  then j\<lparr>status := ''completed''\<rparr> else j)
      = (if ?P j then j\<lparr>status := ''completed''\<rparr> else j)"
      by simp
  qed
  then have "complete_stuck_jobs now st =
     (length (filter ?P (ingestion_jobs st)),
      st\<lparr>ingestion_jobs := map (\<lambda>j. if ?P j then j\<lparr>status := ''completed''\<rparr> else j)
             (ingestion_jobs st)\<rparr>)"
    by (simp add: complete_stuck_jobs_def Let_def fold_set_status)
  moreover have "now - minutes 10 < now - minutes 5" "\<not> now - minutes 1 < now - minutes 5"
    by (simp_all add: minutes_def)
  ultimately show ?thesis
    by blast
qed

theorem complete_stuck_jobs_sweep_witness:
  "distinct (map job_id (ingestion_jobs ex_store))
   \<and> fst (complete_stuck_jobs (minutes 10) ex_store) = 1
   \<and> map status (ingestion_jobs (snd (complete_stuck_jobs (minutes 10) ex_store)))
       = [''completed'', ''running'', ''completed'']"
proof -
  have 1: "distinct (map job_id (ingestion_jobs ex_store))"
    by (simp add: ex_store_def)
  from complete_stuck_jobs_sweep [OF 1, of "minutes 10"] 1 show ?thesis
    by (simp add: ex_store_def minutes_def)
qed

lemma keeps_status_refl: "keeps_status c S js js"
  by (simp add: keeps_status_def)

lemma keeps_status_trans:
  assumes "keeps_status c S x y" and "keeps_status c S y z"
  shows "keeps_status c S x z"
proof -
  have len: "length x \<le> length z"
    using assms by (simp add: keeps_status_def)
  have row: "\<forall>i < length x. status (x ! i) = c \<longrightarrow> z ! i = x ! i"
  proof (intro allI impI)
    fix i
    assume i: "i < length x" and s: "status (x ! i) = c"
    with assms(1) have xy: "y ! i = x ! i" and "i < length y"
      by (simp_all add: keeps_status_def)
    with s assms(2) have "z ! i = y ! i"
      by (simp add: keeps_status_def)
    with xy show "z ! i = x ! i" by simp
  qed
  have "status ` set z \<subseteq> status ` set y \<union> S" "status ` set y \<subseteq> status ` set x \<union> S"
    using assms by (simp_all add: keeps_status_def)
  then have "status ` set z \<subseteq> status ` set x \<union> S"
    by blast
  with len row show ?thesis
    by (simp add: keeps_status_def)
qed

lemma keeps_status_set_status:
  assumes "c \<in> S"
  shows "keeps_status c S js (set_status jid c js)"
proof -
  have "\<forall>i < length js. status (js ! i) = c \<longrightarrow> set_status jid c js ! i = js ! i"
    by (simp add: set_status_def)
  moreover have "status ` set (set_status jid c js) \<subseteq> status ` set js \<union> S"
    using assms by (auto simp: set_status_def)
  ultimately show ?thesis
    by (simp add: keeps_status_def set_status_def)
qed

lemma keeps_status_append:
  assumes "status j \<in> S"
  shows "keeps_status c S js (js @ [j])"
  using assms by (auto simp: keeps_status_def nth_append)

lemma keeps_status_fold_set_status:
  assumes "c \<in> S"
  shows "keeps_status c S js (fold (\<lambda>job jobs. set_status (job_id job) c jobs) xs js)"
proof (induction xs arbitrary: js)
  case Nil
  show ?case by (simp add: keeps_status_refl)
next
  case (Cons x xs)
  have "keeps_status c S js (set_status (job_id x) c js)"
    using assms by (rule keeps_status_set_status)
  moreover have "keeps_status c S (set_status (job_id x) c js)
      (fold (\<lambda>job jobs. set_status (job_id job) c jobs) xs (set_status (job_id x) c js))"
    by (rule Cons.IH)
  ultimately have "keeps_status c S js
      (fold (\<lambda>job jobs. set_status (job_id job) c jobs) xs (set_status (job_id x) c js))"
    by (rule keeps_status_trans)
  then show ?case by simp
qed

lemma trigger_keeps_completed:
  "keeps_status ''completed'' {''running'', ''completed''} (ingestion_jobs st)
     (ingestion_jobs (snd (trigger_ingestion now did st)))"
proof (cases "get_document st did")
  case (Inl e)
  then show ?thesis
    by (simp add: trigger_ingestion_def keeps_status_refl)
next
  case (Inr doc)
  have "keeps_status ''completed'' {''running'', ''completed''} (ingestion_jobs st)
      (ingestion_jobs st @ [\<lparr>job_id = job_id_seq st, document_id = did,
                   status = ''running'', created_at = now\<rparr>])"
    by (rule keeps_status_append) simp
  with Inr show ?thesis
    by (simp add: trigger_ingestion_def Let_def)
qed

lemma process_keeps_completed:
  "keeps_status ''completed'' {''running'', ''completed''} (ingestion_jobs st)
     (ingestion_jobs (snd (process_ingestion_job jid st)))"
proof (cases "scalar_one_or_none (filter (\<lambda>j. job_id j = jid) (ingestion_jobs st))")
  case (Inl e)
  then show ?thesis
    by (simp add: process_ingestion_job_def keeps_status_refl)
next
  case (Inr r)
  show ?thesis
  proof (cases r)
    case None
    with Inr show ?thesis
      by (simp add: process_ingestion_job_def keeps_status_refl)
  next
    case (Some job)
    have "keeps_status ''completed'' {''running'', ''completed''} (ingestion_jobs st)
        (set_status (job_id job) ''completed'' (ingestion_jobs st))"
      by (rule keeps_status_set_status) simp
    with Inr Some show ?thesis
      by (simp add: process_ingestion_job_def)
  qed
qed

lemma sweep_keeps_completed:
  "keeps_status ''completed'' {''running'', ''completed''} (ingestion_jobs st)
     (ingestion_jobs (snd (complete_stuck_jobs now st)))"
proof -
  have "keeps_status ''completed'' {''running'', ''completed''} (ingestion_jobs st)
      (fold (\<lambda>job jobs. set_status (job_id job) ''completed'' jobs)
         (filter (\<lambda>j. status j = ''running'' \<and> created_at j < now - minutes 5)
            (ingestion_jobs st))
         (ingestion_jobs st))"
    by (rule keeps_status_fold_set_status) simp
  then show ?thesis
    by (simp add: complete_stuck_jobs_def Let_def)
qed

lemma step_keeps_completed:
  "keeps_status ''completed'' {''running'', ''completed''} (ingestion_jobs st)
     (ingestion_jobs (step ev st))"
proof (cases ev)
  case (Trigger now did)
  then show ?thesis by (simp add: trigger_keeps_completed)
next
  case (RunTask jid)
  show ?thesis
  proof (cases "jid \<in> set (scheduled st)")
    case True
    with RunTask process_keeps_completed [of "st\<lparr>scheduled := remove1 jid (scheduled st)\<rparr>" jid]
    show ?thesis by simp
  next
    case False
    with RunTask show ?thesis by (simp add: keeps_status_refl)
  qed
next
  case (Status jid)
  then show ?thesis by (simp add: keeps_status_refl)
next
  case ListJobs
  then show ?thesis by (simp add: keeps_status_refl)
next
  case (Sweep now)
  then show ?thesis by (simp add: sweep_keeps_completed)
qed

lemma run_keeps_completed:
  "keeps_status ''completed'' {''running'', ''completed''} (ingestion_jobs st)
     (ingestion_jobs (run evs st))"
proof (induction evs arbitrary: st)
  case Nil
  show ?case by (simp add: run_def keeps_status_refl)
next
  case (Cons ev evs)
  have "keeps_status ''completed'' {''running'', ''completed''} (ingestion_jobs st)
      (ingestion_jobs (step ev st))"
    by (rule step_keeps_completed)
  moreover have "keeps_status ''completed'' {''running'', ''completed''}
      (ingestion_jobs (step ev st)) (ingestion_jobs (run evs (step ev st)))"
    by (rule Cons.IH)
  ultimately have "keeps_status ''completed'' {''running'', ''completed''} (ingestion_jobs st)
      (ingestion_jobs (run evs (step ev st)))"
    by (rule keeps_status_trans)
  then show ?case
    by (simp add: run_def)
qed

text \<open>
  C7. Over any sequence of steps of the tracker (triggers, runs of scheduled completion
  tasks, status lookups, listings and sweeps) no row of the job table is lost, a row whose
  status is \<open>completed\<close> stays exactly as it is, and every status in the table afterwards
  was in the table before or is \<open>running\<close> or \<open>completed\<close>: no step produces \<open>failed\<close>
  or \<open>pending\<close>.
\<close>

theorem completed_is_stable:
  "length (ingestion_jobs st) \<le> length (ingestion_jobs (run evs st))
   \<and> (\<forall>i < length (ingestion_jobs st). status (ingestion_jobs st ! i) = ''completed'' \<longrightarrow>
         ingestion_jobs (run evs st) ! i = ingestion_jobs st ! i)
   \<and> status ` set (ingestion_jobs (run evs st))
        \<subseteq> status ` set (ingestion_jobs st) \<union> {''running'', ''completed''}"
  using run_keeps_completed [of st evs] unfolding keeps_status_def .


theorem completed_is_stable_witness:
  "2 < length (ingestion_jobs ex_store)
   \<and> status (ingestion_jobs ex_store ! 2) = ''completed''
   \<and> ingestion_jobs
        (run [RunTask 1, Sweep (minutes 20), Trigger (minutes 21) 1, RunTask 3] ex_store) ! 2
       = ingestion_jobs ex_store ! 2"
proof -
  have 1: "2 < length (ingestion_jobs ex_store)"
    and 2: "status (ingestion_jobs ex_store ! 2) = ''completed''"
    by (simp_all add: ex_store_def)
  from 1 2
    completed_is_stable [of ex_store "[RunTask 1, Sweep (minutes 20), Trigger (minutes 21) 1, RunTask 3]"]
  show ?thesis
    by blast
qed

lemma find_key_unique:
  "distinct (map f xs) \<Longrightarrow> x \<in> set xs \<Longrightarrow> find (\<lambda>y. f y = f x) xs = Some x"
proof (induction xs)
  case Nil
  then show ?case by simp
next
  case (Cons a xs)
  show ?case
  proof (cases "a = x")
    case True
    then show ?thesis by simp
  next
    case False
    with Cons.prems have "x \<in> set xs" and "f a \<noteq> f x"
      by auto
    with Cons show ?thesis by simp
  qed
qed

lemma join_documents_single:
  assumes "distinct (map doc_id docs)" and "document_id j \<in> doc_id ` set docs"
  shows "map listing_of (join_documents docs j) = [job_row docs j]"
proof -
  from assms(2) obtain d where d: "d \<in> set docs" "doc_id d = document_id j"
    by auto
  have "filter (\<lambda>doc. document_id j = doc_id doc) docs = filter (\<lambda>doc. doc_id doc = doc_id d) docs"
    using d(2) by (intro filter_cong refl) auto
  also have "\<dots> = [d]"
    using assms(1) d(1) by (rule filter_key_unique)
  finally have "filter (\<lambda>doc. document_id j = doc_id doc) docs = [d]" .
  moreover have "find (\<lambda>doc. doc_id doc = document_id j) docs = Some d"
    using find_key_unique [OF assms(1) d(1)] d(2) by simp
  ultimately show ?thesis
    by (simp add: join_documents_def listing_of_def job_row_def)
qed

lemma concat_join_documents:
  assumes "distinct (map doc_id docs)"
  shows "\<forall>j \<in> set jobs. document_id j \<in> doc_id ` set docs \<Longrightarrow>
    map listing_of (concat (map (join_documents docs) jobs)) = map (job_row docs) jobs"
proof (induction jobs)
  case Nil
  show ?case by simp
next
  case (Cons j jobs)
  then have "map listing_of (join_documents docs j) = [job_row docs j]"
    using join_documents_single [OF assms] by simp
  with Cons show ?case by simp
qed

lemma listing_sorted:
  "sorted_wrt (\<lambda>a b. l_created_at b \<le> l_created_at a)
     (map listing_of (sort_key (\<lambda>row. - created_at (fst row)) rows))"
proof -
  have "sorted (map (\<lambda>row. - created_at (fst row))
      (sort_key (\<lambda>row. - created_at (fst row)) rows))"
    by (rule sorted_sort_key)
  then show ?thesis
    by (simp add: sorted_map sorted_wrt_map listing_of_def)
qed

text \<open>
  C8. When document ids are the primary key of their table and every job refers to a
  stored document (the foreign key of \<open>ingestion_jobs.document_id\<close>), the listing holds
  one row for each job of the table and no other row, each row with the job's id, document
  id, status and creation time and the filename of its document, in non-increasing order
  of creation time.
\<close>

theorem list_ingestion_jobs_all_sorted:
  "distinct (map doc_id (documents st)) \<Longrightarrow>
   \<forall>j \<in> set (ingestion_jobs st). document_id j \<in> doc_id ` set (documents st) \<Longrightarrow>
   mset (list_ingestion_jobs st) = mset (map (job_row (documents st)) (ingestion_jobs st))
   \<and> sorted_wrt (\<lambda>a b. l_created_at b \<le> l_created_at a) (list_ingestion_jobs st)"
proof -
  assume d: "distinct (map doc_id (documents st))"
    and fk: "\<forall>j \<in> set (ingestion_jobs st). document_id j \<in> doc_id ` set (documents st)"
  let ?rows = "concat (map (join_documents (documents st)) (ingestion_jobs st))"
  have "mset (list_ingestion_jobs st) = mset (map listing_of ?rows)"
    by (simp add: list_ingestion_jobs_def Let_def)
  also have "\<dots> = mset (map (job_row (documents st)) (ingestion_jobs st))"
    using concat_join_documents [OF d fk] by simp
  finally have 1: "mset (list_ingestion_jobs st) =
      mset (map (job_row (documents st)) (ingestion_jobs st))" .
  have 2: "sorted_wrt (\<lambda>a b. l_created_at b \<le> l_created_at a) (list_ingestion_jobs st)"
    unfolding list_ingestion_jobs_def Let_def by (rule listing_sorted)
  from 1 2 show ?thesis ..
qed

theorem list_ingestion_jobs_all_sorted_witness:
  "distinct (map doc_id (documents ex_store))
   \<and> document_id (ingestion_jobs ex_store ! 0) \<in> doc_id ` set (documents ex_store)
   \<and> map l_id (list_ingestion_jobs ex_store) = [2, 3, 1]
   \<and> map l_filename (list_ingestion_jobs ex_store) = [''a.pdf'', ''a.pdf'', ''b.pdf'']
   \<and> mset (list_ingestion_jobs ex_store)
       = mset (map (job_row (documents ex_store)) (ingestion_jobs ex_store))"
proof -
  have 1: "distinct (map doc_id (documents ex_store))"
    and 2: "\<forall>j \<in> set (ingestion_jobs ex_store). document_id j \<in> doc_id ` set (documents ex_store)"
    and 3: "document_id (ingestion_jobs ex_store ! 0) \<in> doc_id ` set (documents ex_store)"
    by (simp_all add: ex_store_def)
  have 4: "map l_id (list_ingestion_jobs ex_store) = [2, 3, 1]"
    by code_simp
  have 5: "map l_filename (list_ingestion_jobs ex_store) = [''a.pdf'', ''a.pdf'', ''b.pdf'']"
    by code_simp
  from list_ingestion_jobs_all_sorted [OF 1 2] 1 3 4 5 show ?thesis
    by blast
qed

section \<open>Properties of indexing\<close>

lemma index_book_try_found:
  assumes "select_book_by_id db bid = Inr [b]" and "select_reviews db bid = Inr rs"
  shows "index_book_try db bid store = Inr (dict_set store bid (make_entry bid b rs))"
  using assms by (simp add: index_book_try_def scalar_one_or_none_def)

lemma index_book_found:
  assumes "select_book_by_id db bid = Inr [b]" and "select_reviews db bid = Inr rs"
  shows "index_book db bid rag =
    Inr (rag\<lparr>embeddings_store := dict_set (embeddings_store rag) bid (make_entry bid b rs)\<rparr>)"
  using index_book_try_found [OF assms] by (simp add: index_book_def)

lemma dict_set_lookup: "map_of (dict_set d k v) k' = (if k' = k then Some v else map_of d k')"
  by (simp add: dict_set_def update_conv')

lemma dict_set_keys_again: "dict_keys (dict_set (dict_set d k v) k w) = dict_keys (dict_set d k v)"
  by (simp add: dict_set_def dict_keys_def update_keys)

text \<open>
  C6. When the store returns a book row and its reviews for an id at two moments, indexing
  that id at both moments succeeds both times, the second write leaves the key list and the
  size of the index as the first write left them, the entry under the id is the one built
  from the rows of the second moment (the first write's entry was the one built from the
  rows of the first), and the entry of every other id is as before the two writes.
\<close>

theorem index_book_overwrites:
  assumes "select_book_by_id db1 bid = Inr [b1]" and "select_reviews db1 bid = Inr rs1"
    and "select_book_by_id db2 bid = Inr [b2]" and "select_reviews db2 bid = Inr rs2"
  shows "\<exists>rag1 rag2.
      index_book db1 bid rag = Inr rag1 \<and> index_book db2 bid rag1 = Inr rag2
      \<and> map_of (embeddings_store rag1) bid = Some (make_entry bid b1 rs1)
      \<and> map_of (embeddings_store rag2) bid = Some (make_entry bid b2 rs2)
      \<and> dict_keys (embeddings_store rag2) = dict_keys (embeddings_store rag1)
      \<and> length (embeddings_store rag2) = length (embeddings_store rag1)
      \<and> (\<forall>k. k \<noteq> bid \<longrightarrow>
            map_of (embeddings_store rag1) k = map_of (embeddings_store rag) k
            \<and> map_of (embeddings_store rag2) k = map_of (embeddings_store rag) k)"
proof -
  let ?s1 = "dict_set (embeddings_store rag) bid (make_entry bid b1 rs1)"
  let ?rag1 = "rag\<lparr>embeddings_store := ?s1\<rparr>"
  let ?s2 = "dict_set ?s1 bid (make_entry bid b2 rs2)"
  let ?rag2 = "?rag1\<lparr>embeddings_store := ?s2\<rparr>"
  have 1: "index_book db1 bid rag = Inr ?rag1"
    using assms(1,2) by (rule index_book_found)
  have 2: "index_book db2 bid ?rag1 = Inr ?rag2"
    using index_book_found [OF assms(3,4), of ?rag1] by simp
  have keys: "dict_keys ?s2 = dict_keys ?s1"
    by (rule dict_set_keys_again)
  then have "length (dict_keys ?s2) = length (dict_keys ?s1)"
    by simp
  then have len: "length ?s2 = length ?s1"
    by (simp add: dict_keys_def)
  have 3: "map_of ?s1 bid = Some (make_entry bid b1 rs1)"
    and 4: "map_of ?s2 bid = Some (make_entry bid b2 rs2)"
    and 5: "\<forall>k. k \<noteq> bid \<longrightarrow> map_of ?s1 k = map_of (embeddings_store rag) k
          \<and> map_of ?s2 k = map_of (embeddings_store rag) k"
    by (simp_all add: dict_set_lookup)
  have "index_book db1 bid rag = Inr ?rag1 \<and> index_book db2 bid ?rag1 = Inr ?rag2
      \<and> map_of (embeddings_store ?rag1) bid = Some (make_entry bid b1 rs1)
      \<and> map_of (embeddings_store ?rag2) bid = Some (make_entry bid b2 rs2)
      \<and> dict_keys (embeddings_store ?rag2) = dict_keys (embeddings_store ?rag1)
      \<and> length (embeddings_store ?rag2) = length (embeddings_store ?rag1)
      \<and> (\<forall>k. k \<noteq> bid \<longrightarrow>
            map_of (embeddings_store ?rag1) k = map_of (embeddings_store rag) k
            \<and> map_of (embeddings_store ?rag2) k = map_of (embeddings_store rag) k)"
    using 1 2 3 4 5 keys len by simp
  then show ?thesis
    by blast
qed

theorem index_book_overwrites_witness:
  "select_book_by_id ex_db 1 = Inr [ex_dune]
   \<and> select_reviews ex_db 1 = Inr [\<lparr>review_book_id = 1, review_text = Some ''sand''\<rparr>]
   \<and> select_book_by_id ex_db2 1 = Inr [ex_dune_retitled]
   \<and> select_reviews ex_db2 1 = Inr [\<lparr>review_book_id = 1, review_text = Some ''sand''\<rparr>]
   \<and> (\<exists>rag1 rag2.
         index_book ex_db 1 ex_rag = Inr rag1 \<and> index_book ex_db2 1 rag1 = Inr rag2
         \<and> length (embeddings_store rag2) = length (embeddings_store rag1)
         \<and> map_of (embeddings_store rag2) 1 =
             Some (make_entry 1 ex_dune_retitled
                     [\<lparr>review_book_id = 1, review_text = Some ''sand''\<rparr>]))"
proof -
  have 1: "select_book_by_id ex_db 1 = Inr [ex_dune]"
    and 2: "select_reviews ex_db 1 = Inr [\<lparr>review_book_id = 1, review_text = Some ''sand''\<rparr>]"
    and 3: "select_book_by_id ex_db2 1 = Inr [ex_dune_retitled]"
    and 4: "select_reviews ex_db2 1 = Inr [\<lparr>review_book_id = 1, review_text = Some ''sand''\<rparr>]"
    by (simp_all add: select_book_by_id_def select_reviews_def ex_db_def ex_db2_def
        ex_dune_def ex_dune_retitled_def ex_emma_def)
  from index_book_overwrites [OF 1 2 3 4, of ex_rag] 1 2 3 4 show ?thesis
    by blast
qed

lemma index_book_returns: "\<exists>rag'. index_book db bid rag = Inr rag'"
  by (cases "index_book_try db bid (embeddings_store rag)") (simp_all add: index_book_def)

lemma index_book_logs:
  "index_book_try db bid (embeddings_store rag) = Inl e \<Longrightarrow>
   index_book db bid rag = Inr (rag\<lparr>logged := logged rag @ [LogError bid e]\<rparr>)"
  by (simp add: index_book_def)

lemma reindex_step_counts: "fst (reindex_step db b acc) = fst acc + 1"
proof -
  obtain rag' where "index_book db (book_id b) (snd acc) = Inr rag'"
    using index_book_returns by blast
  then show ?thesis
    by (simp add: reindex_step_def)
qed

lemma fold_reindex_step_counts: "fst (fold (reindex_step db) bs acc) = fst acc + length bs"
  by (induction bs arbitrary: acc) (simp_all add: reindex_step_counts)

text \<open>
  C9. \<open>index_book\<close> returns for every store, id and pipeline: an exception raised inside
  it is appended to the log and the pipeline is otherwise returned as it was. So whenever
  the listing of the books succeeds, \<open>reindex_all_books\<close> runs through the whole batch and
  returns \<open>indexed_count\<close> equal to \<open>total_books\<close>, the number of books listed, also
  when indexing failed inside for some of them.
\<close>

theorem index_book_never_raises:
  "(\<exists>rag'. index_book db bid rag = Inr rag')
   \<and> (\<forall>e. index_book_try db bid (embeddings_store rag) = Inl e \<longrightarrow>
         index_book db bid rag = Inr (rag\<lparr>logged := logged rag @ [LogError bid e]\<rparr>))
   \<and> (\<forall>bs. select_all_books db = Inr bs \<longrightarrow>
         (\<exists>stats rag'. reindex_all_books db rag = Inr (stats, rag')
            \<and> total_books stats = length bs
            \<and> indexed_count stats = total_books stats))"
proof (intro conjI allI impI)
  show "\<exists>rag'. index_book db bid rag = Inr rag'"
    by (rule index_book_returns)
next
  fix e
  assume "index_book_try db bid (embeddings_store rag) = Inl e"
  then show "index_book db bid rag = Inr (rag\<lparr>logged := logged rag @ [LogError bid e]\<rparr>)"
    by (rule index_book_logs)
next
  fix bs
  assume "select_all_books db = Inr bs"
  then have "reindex_all_books db rag =
      Inr (\<lparr>total_books = length bs,
            indexed_count = fst (fold (reindex_step db) bs (0, rag)),
            total_in_store = length (embeddings_store (snd (fold (reindex_step db) bs (0, rag))))\<rparr>,
           snd (fold (reindex_step db) bs (0, rag)))"
    by (simp add: reindex_all_books_def Let_def)
  moreover have "fst (fold (reindex_step db) bs (0, rag)) = length bs"
    by (simp add: fold_reindex_step_counts)
  ultimately show "\<exists>stats rag'. reindex_all_books db rag = Inr (stats, rag')
            \<and> total_books stats = length bs
            \<and> indexed_count stats = total_books stats"
    by simp
qed

theorem index_book_never_raises_witness:
  "select_all_books ex_db = Inr [ex_dune, ex_emma]
   \<and> index_book_try ex_db 2 (embeddings_store ex_rag) = Inl DBAPIError
   \<and> index_book ex_db 2 ex_rag = Inr (ex_rag\<lparr>logged := logged ex_rag @ [LogError 2 DBAPIError]\<rparr>)
   \<and> (\<exists>stats rag'. reindex_all_books ex_db ex_rag = Inr (stats, rag')
         \<and> total_books stats = 2 \<and> indexed_count stats = 2)"
proof -
  have 1: "select_all_books ex_db = Inr [ex_dune, ex_emma]"
    by (simp add: select_all_books_def ex_db_def)
  have 2: "index_book_try ex_db 2 (embeddings_store ex_rag) = Inl DBAPIError"
    by (simp add: index_book_try_def select_book_by_id_def select_reviews_def
        scalar_one_or_none_def ex_db_def ex_dune_def ex_emma_def)
  from index_book_never_raises [of ex_db 2 ex_rag] 1 2 show ?thesis
    by fastforce
qed

end
